theory Spec2Isabelle
  imports Main "HOL-Library.Sublist"
begin

section \<open>Characters and character classes\<close>

text \<open>
  A line is a \<^typ>\<open>string\<close>: a list of characters with code points 0 to 255. The classes
  below are the ones the three patterns of \<^verbatim>\<open>data_hunter\<close> use, as Python's \<^verbatim>\<open>re\<close> module
  decides them for a \<^verbatim>\<open>str\<close> pattern on these code points.
\<close>

definition code :: "char \<Rightarrow> nat" where
  "code c = of_char c"

text \<open>\<^verbatim>\<open>[A-Z]\<close>, \<^verbatim>\<open>[a-z]\<close>, \<^verbatim>\<open>[0-9]\<close> and \<^verbatim>\<open>[a-zA-Z]\<close>.\<close>

definition is_upper :: "char \<Rightarrow> bool" where
  "is_upper c = (65 \<le> code c \<and> code c \<le> 90)"

definition is_lower :: "char \<Rightarrow> bool" where
  "is_lower c = (97 \<le> code c \<and> code c \<le> 122)"

definition is_digit :: "char \<Rightarrow> bool" where
  "is_digit c = (48 \<le> code c \<and> code c \<le> 57)"

definition is_alpha :: "char \<Rightarrow> bool" where
  "is_alpha c = (is_upper c \<or> is_lower c)"

text \<open>
  \<^verbatim>\<open>\w\<close> of a \<^verbatim>\<open>str\<close> pattern: the underscore and every alphanumeric character. Up to code
  point 255 these are the ASCII letters and digits, the ordinal indicators (170, 186), the
  superscript digits (178, 179, 185), the micro sign (181), the vulgar fractions (188 to 190)
  and the accented letters (192 to 255 without the multiplication and division signs).
\<close>

definition is_word :: "char \<Rightarrow> bool" where
  "is_word c = (is_alpha c \<or> is_digit c \<or> code c = 95
     \<or> code c = 170 \<or> code c = 178 \<or> code c = 179 \<or> code c = 181
     \<or> code c = 185 \<or> code c = 186
     \<or> (188 \<le> code c \<and> code c \<le> 190)
     \<or> (192 \<le> code c \<and> code c \<le> 214)
     \<or> (216 \<le> code c \<and> code c \<le> 246)
     \<or> 248 \<le> code c)"

text \<open>
  \<^verbatim>\<open>\s\<close> of a \<^verbatim>\<open>str\<close> pattern: tab, line feed, vertical tab, form feed, carriage return, the
  four separators 28 to 31, the space, next line (133) and the no-break space (160).
\<close>

definition is_space :: "char \<Rightarrow> bool" where
  "is_space c = ((9 \<le> code c \<and> code c \<le> 13) \<or> (28 \<le> code c \<and> code c \<le> 32)
     \<or> code c = 133 \<or> code c = 160)"

text \<open>The dot without \<^verbatim>\<open>re.DOTALL\<close>: every character but the line feed.\<close>

definition is_any :: "char \<Rightarrow> bool" where
  "is_any c = (code c \<noteq> 10)"

text \<open>
  \<^verbatim>\<open>re.IGNORECASE\<close>: a letter of the pattern matches the characters whose lower case it is.
  Up to code point 255 only an ASCII capital has an ASCII letter as its lower case.
\<close>

definition lower :: "char \<Rightarrow> char" where
  "lower c = (if is_upper c then char_of (code c + 32) else c)"

definition ci :: "char \<Rightarrow> char \<Rightarrow> bool" where
  "ci p c = (lower c = p)"

section \<open>Patterns and the backtracking matcher\<close>

text \<open>
  The constructs the three patterns are built from, over any type \<open>'a\<close> of characters.
  \<open>Star\<close> is the greedy \<^verbatim>\<open>*\<close>, \<open>Lazy\<close> the non-greedy \<^verbatim>\<open>*?\<close>; \<open>Alt\<close> tries its left branch
  first.
\<close>

datatype 'a regex =
    Sym "'a \<Rightarrow> bool"
  | Eps
  | Seq "'a regex" "'a regex"
  | Alt "'a regex" "'a regex"
  | Star "'a regex"
  | Lazy "'a regex"

text \<open>\<^verbatim>\<open>r+\<close>, \<^verbatim>\<open>r?\<close> and \<^verbatim>\<open>r{2,4}\<close>, all greedy: the longer alternative is tried first.\<close>

definition Plus :: "'a regex \<Rightarrow> 'a regex" where
  "Plus r = Seq r (Star r)"

definition Opt :: "'a regex \<Rightarrow> 'a regex" where
  "Opt r = Alt r Eps"

definition Rep24 :: "'a regex \<Rightarrow> 'a regex" where
  "Rep24 r = Seq r (Seq r (Opt (Seq r (Opt r))))"

text \<open>A word of the pattern, letter by letter, under \<^verbatim>\<open>re.IGNORECASE\<close>.\<close>

fun word_ci :: "string \<Rightarrow> char regex" where
  "word_ci [] = Eps"
| "word_ci (p # ps) = Seq (Sym (ci p)) (word_ci ps)"

text \<open>
  \<open>bt r s\<close> lists what is left of \<open>s\<close> after each way of matching \<open>r\<close> at the start of
  \<open>s\<close>, in the order in which the backtracking engine tries them: the head of the list is the
  match the engine reports. A repetition goes on only after an iteration that consumed a
  character.
\<close>

fun bt :: "'a regex \<Rightarrow> 'a list \<Rightarrow> 'a list list" where
  "bt (Sym p) [] = []"
| "bt (Sym p) (c # cs) = (if p c then [cs] else [])"
| "bt Eps s = [s]"
| "bt (Seq r1 r2) s = concat (map (bt r2) (bt r1 s))"
| "bt (Alt r1 r2) s = bt r1 s @ bt r2 s"
| "bt (Star r) s =
     concat (map (\<lambda>t. if length t < length s then bt (Star r) t else []) (bt r s)) @ [s]"
| "bt (Lazy r) s =
     s # concat (map (\<lambda>t. if length t < length s then bt (Lazy r) t else []) (bt r s))"

declare bt.simps(6) [simp del] bt.simps(7) [simp del]

text \<open>
  \<^verbatim>\<open>pattern.match\<close> at one start position: the text of the first way to match that the
  engine finds there, or \<open>None\<close>.
\<close>

definition match_prefix :: "'a regex \<Rightarrow> 'a list \<Rightarrow> 'a list option" where
  "match_prefix r s =
     (case bt r s of [] \<Rightarrow> None | t # _ \<Rightarrow> Some (take (length s - length t) s))"

text \<open>
  \<^verbatim>\<open>pattern.search(line)\<close> followed by \<^verbatim>\<open>.group()\<close>: the start positions are tried from left to
  right, the empty rest of the line included; the result is the text of the first match, or
  \<open>None\<close> where Python returns \<^verbatim>\<open>None\<close>.
\<close>

fun search :: "'a regex \<Rightarrow> 'a list \<Rightarrow> 'a list option" where
  "search r [] = match_prefix r []"
| "search r (c # cs) =
     (case match_prefix r (c # cs) of Some m \<Rightarrow> Some m | None \<Rightarrow> search r cs)"

section \<open>The three patterns of \<^verbatim>\<open>data_hunter\<close>\<close>

text \<open>A literal character, and a bracket expression that lists its characters.\<close>

definition lit :: "char \<Rightarrow> char \<Rightarrow> bool" where
  "lit x c = (c = x)"

definition one_of :: "string \<Rightarrow> char \<Rightarrow> bool" where
  "one_of xs c = (c \<in> set xs)"

text \<open>\<^verbatim>\<open>[a-zA-Z0-9._%+-]\<close> and \<^verbatim>\<open>[a-zA-Z0-9.-]\<close>.\<close>

definition local_char :: "char \<Rightarrow> bool" where
  "local_char c = (is_alpha c \<or> is_digit c \<or> one_of ''._%+-'' c)"

definition domain_char :: "char \<Rightarrow> bool" where
  "domain_char c = (is_alpha c \<or> is_digit c \<or> one_of ''.-'' c)"

text \<open>\<^verbatim>\<open>[\w\"]\<close>, \<^verbatim>\<open>[:=]\<close> and \<^verbatim>\<open>['\"]\<close> (code points 39 and 34).\<close>

definition word_or_dquote :: "char \<Rightarrow> bool" where
  "word_or_dquote c = (is_word c \<or> c = CHR 0x22)"

definition is_sep :: "char \<Rightarrow> bool" where
  "is_sep c = one_of '':='' c"

definition is_quote :: "char \<Rightarrow> bool" where
  "is_quote c = (c = CHR 0x27 \<or> c = CHR 0x22)"

text \<open>
  Line 31: \<^verbatim>\<open>[a-zA-Z0-9._%+-]+@[a-zA-Z0-9.-]+\.[a-zA-Z]{2,4}\<close>, compiled without flags.
\<close>

definition email_regex :: "char regex" where
  "email_regex =
     Seq (Plus (Sym local_char))
    (Seq (Sym (lit CHR ''@''))
    (Seq (Plus (Sym domain_char))
    (Seq (Sym (lit CHR ''.''))
         (Rep24 (Sym is_alpha)))))"

text \<open>
  Lines 38 and 39 end in the same text, \<^verbatim>\<open>\s*[:=]\s*['\"](.*?)['\"]\<close>: optional white space, a
  colon or an equals sign, optional white space, a quote, as few characters as possible, a
  quote. The opening and the closing quote are two separate bracket expressions.
\<close>

definition assigned_quoted :: "char regex" where
  "assigned_quoted =
     Seq (Star (Sym is_space))
    (Seq (Sym is_sep)
    (Seq (Star (Sym is_space))
    (Seq (Sym is_quote)
    (Seq (Lazy (Sym is_any))
         (Sym is_quote)))))"

text \<open>
  Line 38: \<^verbatim>\<open>([\w\"]*password[\w\"]|password)*\<close> followed by the text above, compiled with
  \<^verbatim>\<open>re.IGNORECASE\<close>. The first branch of the group ends in exactly one \<^verbatim>\<open>[\w\"]\<close>.
\<close>

definition password_group :: "char regex" where
  "password_group =
     Alt (Seq (Star (Sym word_or_dquote)) (Seq (word_ci ''password'') (Sym word_or_dquote)))
         (word_ci ''password'')"

definition sensitive_data_regex :: "char regex" where
  "sensitive_data_regex = Seq (Star password_group) assigned_quoted"

text \<open>
  Line 39: \<^verbatim>\<open>api[_-]?key\<close> followed by the same text, compiled with \<^verbatim>\<open>re.IGNORECASE\<close>.
\<close>

definition api_key_regex :: "char regex" where
  "api_key_regex =
     Seq (word_ci ''api'') (Seq (Opt (Sym (one_of ''_-''))) (Seq (word_ci ''key'') assigned_quoted))"

text \<open>
  Lines 101 to 103 with the \<^verbatim>\<open>.group()\<close> of lines 110, 117 and 124: the text each alert
  prints, or \<open>None\<close> when the line raises no alert of that category.
\<close>

definition matchEmail :: "string \<Rightarrow> string option" where
  "matchEmail line = search email_regex line"

definition matchPassword :: "string \<Rightarrow> string option" where
  "matchPassword line = search sensitive_data_regex line"

definition matchApiKey :: "string \<Rightarrow> string option" where
  "matchApiKey line = search api_key_regex line"

section \<open>Lines 38 and 39 on lines of any code point\<close>

text \<open>
  A line that \<^verbatim>\<open>data_hunter\<close> reads is a Python \<^verbatim>\<open>str\<close>, whose characters are code points
  of any size. For the two patterns compiled with \<^verbatim>\<open>re.IGNORECASE\<close> the alphabet matters, so
  they are given a second time over code points as natural numbers. A letter of the pattern
  matches its two ASCII forms; \<^verbatim>\<open>i\<close> (105) also matches the dotted capital and the dotless
  small i (304, 305), \<^verbatim>\<open>k\<close> (107) the Kelvin sign (8490) and \<^verbatim>\<open>s\<close> (115) the long s (383).
\<close>

definition lower_ascii :: "nat \<Rightarrow> nat" where
  "lower_ascii c = (if 65 \<le> c \<and> c \<le> 90 then c + 32 else c)"

definition ci_u :: "nat \<Rightarrow> nat \<Rightarrow> bool" where
  "ci_u p c = (lower_ascii c = p
     \<or> (p = 105 \<and> (c = 304 \<or> c = 305))
     \<or> (p = 107 \<and> c = 8490)
     \<or> (p = 115 \<and> c = 383))"

fun word_ci_u :: "nat list \<Rightarrow> nat regex" where
  "word_ci_u [] = Eps"
| "word_ci_u (p # ps) = Seq (Sym (ci_u p)) (word_ci_u ps)"

text \<open>
  \<^verbatim>\<open>\w\<close>: below 256 the table of \<open>is_word\<close>; from 256 on the alphanumeric test of Python's
  Unicode database, which is no part of this program and is taken as the parameter \<open>uw\<close>.
\<close>

definition is_word_u :: "(nat \<Rightarrow> bool) \<Rightarrow> nat \<Rightarrow> bool" where
  "is_word_u uw c =
     (if c < 256 then
        (65 \<le> c \<and> c \<le> 90) \<or> (97 \<le> c \<and> c \<le> 122) \<or> (48 \<le> c \<and> c \<le> 57) \<or> c = 95
        \<or> c = 170 \<or> c = 178 \<or> c = 179 \<or> c = 181 \<or> c = 185 \<or> c = 186
        \<or> (188 \<le> c \<and> c \<le> 190) \<or> (192 \<le> c \<and> c \<le> 214) \<or> (216 \<le> c \<and> c \<le> 246)
        \<or> 248 \<le> c
      else uw c)"

text \<open>
  \<^verbatim>\<open>\s\<close>: the white space of \<open>is_space\<close> and, from 256 on, the Ogham space mark (5760), the
  spaces 8192 to 8202, the line and paragraph separators (8232, 8233), the narrow no-break
  space (8239), the medium mathematical space (8287) and the ideographic space (12288).
\<close>

definition is_space_u :: "nat \<Rightarrow> bool" where
  "is_space_u c = ((9 \<le> c \<and> c \<le> 13) \<or> (28 \<le> c \<and> c \<le> 32) \<or> c = 133 \<or> c = 160
     \<or> c = 5760 \<or> (8192 \<le> c \<and> c \<le> 8202) \<or> c = 8232 \<or> c = 8233 \<or> c = 8239
     \<or> c = 8287 \<or> c = 12288)"

definition is_any_u :: "nat \<Rightarrow> bool" where
  "is_any_u c = (c \<noteq> 10)"

definition word_or_dquote_u :: "(nat \<Rightarrow> bool) \<Rightarrow> nat \<Rightarrow> bool" where
  "word_or_dquote_u uw c = (is_word_u uw c \<or> c = 34)"

definition is_dash_u :: "nat \<Rightarrow> bool" where
  "is_dash_u c = (c = 95 \<or> c = 45)"

definition is_sep_u :: "nat \<Rightarrow> bool" where
  "is_sep_u c = (c = 58 \<or> c = 61)"

definition is_quote_u :: "nat \<Rightarrow> bool" where
  "is_quote_u c = (c = 39 \<or> c = 34)"

text \<open>The patterns of lines 38 and 39, built as above from these tests.\<close>

definition assigned_quoted_u :: "nat regex" where
  "assigned_quoted_u =
     Seq (Star (Sym is_space_u))
    (Seq (Sym is_sep_u)
    (Seq (Star (Sym is_space_u))
    (Seq (Sym is_quote_u)
    (Seq (Lazy (Sym is_any_u))
         (Sym is_quote_u)))))"

definition password_group_u :: "(nat \<Rightarrow> bool) \<Rightarrow> nat regex" where
  "password_group_u uw =
     Alt (Seq (Star (Sym (word_or_dquote_u uw)))
           (Seq (word_ci_u (map code ''password'')) (Sym (word_or_dquote_u uw))))
         (word_ci_u (map code ''password''))"

definition sensitive_data_regex_u :: "(nat \<Rightarrow> bool) \<Rightarrow> nat regex" where
  "sensitive_data_regex_u uw = Seq (Star (password_group_u uw)) assigned_quoted_u"

definition api_key_regex_u :: "nat regex" where
  "api_key_regex_u =
     Seq (word_ci_u (map code ''api'')) (Seq (Opt (Sym is_dash_u))
       (Seq (word_ci_u (map code ''key'')) assigned_quoted_u))"

definition matchPassword_u :: "(nat \<Rightarrow> bool) \<Rightarrow> nat list \<Rightarrow> nat list option" where
  "matchPassword_u uw line = search (sensitive_data_regex_u uw) line"

definition matchApiKey_u :: "nat list \<Rightarrow> nat list option" where
  "matchApiKey_u line = search api_key_regex_u line"

section \<open>What a pattern matches\<close>

text \<open>
  The words a pattern matches, with no order among the alternatives: \<open>matches r u\<close> holds
  when \<open>r\<close> matches the whole of \<open>u\<close>.
\<close>

inductive matches :: "'a regex \<Rightarrow> 'a list \<Rightarrow> bool" where
  m_Sym: "p c \<Longrightarrow> matches (Sym p) [c]"
| m_Eps: "matches Eps []"
| m_Seq: "matches r1 u \<Longrightarrow> matches r2 v \<Longrightarrow> matches (Seq r1 r2) (u @ v)"
| m_AltL: "matches r1 u \<Longrightarrow> matches (Alt r1 r2) u"
| m_AltR: "matches r2 u \<Longrightarrow> matches (Alt r1 r2) u"
| m_Star0: "matches (Star r) []"
| m_Star1: "matches r u \<Longrightarrow> matches (Star r) v \<Longrightarrow> matches (Star r) (u @ v)"
| m_Lazy0: "matches (Lazy r) []"
| m_Lazy1: "matches r u \<Longrightarrow> matches (Lazy r) v \<Longrightarrow> matches (Lazy r) (u @ v)"

text \<open>
  An email-like token in the words of the specification: a non-empty local part of letters,
  digits and \<^verbatim>\<open>._%+-\<close>, an \<^verbatim>\<open>@\<close>, a non-empty domain of letters, digits and \<^verbatim>\<open>.-\<close>, a dot, and a
  top-level domain of two to four letters.
\<close>

definition email_token :: "string \<Rightarrow> bool" where
  "email_token t \<longleftrightarrow>
     (\<exists>l d e. t = l @ ''@'' @ d @ ''.'' @ e
        \<and> l \<noteq> [] \<and> list_all local_char l
        \<and> d \<noteq> [] \<and> list_all domain_char d
        \<and> list_all is_alpha e \<and> 2 \<le> length e \<and> length e \<le> 4)"

text \<open>
  Two strings that a function \<open>f\<close> on characters makes equal (for \<open>f\<close> the lower case of the
  ASCII letters: that differ only in the case of these letters), and the patterns whose
  character tests do not see through \<open>f\<close>.
\<close>

definition same_under :: "('a \<Rightarrow> 'a) \<Rightarrow> 'a list \<Rightarrow> 'a list \<Rightarrow> bool" where
  "same_under f s t = (map f s = map f t)"

fun blind_to :: "('a \<Rightarrow> 'a) \<Rightarrow> 'a regex \<Rightarrow> bool" where
  "blind_to f (Sym p) = (\<forall>c. p (f c) = p c)"
| "blind_to f Eps = True"
| "blind_to f (Seq r1 r2) = (blind_to f r1 \<and> blind_to f r2)"
| "blind_to f (Alt r1 r2) = (blind_to f r1 \<and> blind_to f r2)"
| "blind_to f (Star r) = blind_to f r"
| "blind_to f (Lazy r) = blind_to f r"

text \<open>
  A pattern over one type of characters and a pattern over another that make the same tests
  along an embedding \<open>g\<close> of the first type in the second.
\<close>

fun agrees :: "('a \<Rightarrow> 'b) \<Rightarrow> 'a regex \<Rightarrow> 'b regex \<Rightarrow> bool" where
  "agrees g (Sym p) (Sym q) = (\<forall>c. q (g c) = p c)"
| "agrees g Eps Eps = True"
| "agrees g (Seq r1 r2) (Seq u1 u2) = (agrees g r1 u1 \<and> agrees g r2 u2)"
| "agrees g (Alt r1 r2) (Alt u1 u2) = (agrees g r1 u1 \<and> agrees g r2 u2)"
| "agrees g (Star r) (Star u) = agrees g r u"
| "agrees g (Lazy r) (Lazy u) = agrees g r u"
| "agrees g _ _ = False"

text \<open>
  \<open>yields r s t\<close>: the first way the engine finds to match \<open>r\<close> at the start of \<open>s\<close>
  leaves \<open>t\<close>.
\<close>

definition yields :: "'a regex \<Rightarrow> 'a list \<Rightarrow> 'a list \<Rightarrow> bool" where
  "yields r s t = (\<exists>ts. bt r s = t # ts)"




section \<open>The matcher finds exactly the words of the pattern\<close>

lemma bt_sound: "t \<in> set (bt r s) \<Longrightarrow> \<exists>u. s = u @ t \<and> matches r u"
proof (induction r s arbitrary: t rule: bt.induct)
  case (1 p)
  then show ?case by simp
next
  case (2 p c cs)
  then show ?case by (auto split: if_splits intro: m_Sym)
next
  case (3 s)
  then show ?case by (auto intro: m_Eps)
next
  case (4 r1 r2 s)
  from "4.prems" obtain x where x: "x \<in> set (bt r1 s)" and t: "t \<in> set (bt r2 x)" by auto
  from "4.IH"(1)[OF x] obtain u where u: "s = u @ x" "matches r1 u" by blast
  from "4.IH"(2)[OF x t] obtain v where v: "x = v @ t" "matches r2 v" by blast
  show ?case using u v by (auto intro: m_Seq)
next
  case (5 r1 r2 s)
  then show ?case by (fastforce intro: m_AltL m_AltR)
next
  case (6 r s)
  show ?case
  proof (cases "t = s")
    case True
    then show ?thesis by (auto intro: m_Star0)
  next
    case False
    from "6.prems" have "t \<in> set (concat (map (\<lambda>x. if length x < length s then bt (Star r) x else []) (bt r s)) @ [s])"
      unfolding bt.simps(6)[of r s] .
    with False obtain x where x: "x \<in> set (bt r s)" and l: "length x < length s"
      and t: "t \<in> set (bt (Star r) x)" by (auto split: if_splits)
    from "6.IH"(1)[OF x] obtain u where u: "s = u @ x" "matches r u" by blast
    from "6.IH"(2)[OF x l t] obtain v where v: "x = v @ t" "matches (Star r) v" by blast
    show ?thesis using u v by (auto intro: m_Star1)
  qed
next
  case (7 r s)
  show ?case
  proof (cases "t = s")
    case True
    then show ?thesis by (auto intro: m_Lazy0)
  next
    case False
    from "7.prems" have "t \<in> set (s # concat (map (\<lambda>x. if length x < length s then bt (Lazy r) x else []) (bt r s)))"
      unfolding bt.simps(7)[of r s] .
    with False obtain x where x: "x \<in> set (bt r s)" and l: "length x < length s"
      and t: "t \<in> set (bt (Lazy r) x)" by (auto split: if_splits)
    from "7.IH"(1)[OF x] obtain u where u: "s = u @ x" "matches r u" by blast
    from "7.IH"(2)[OF x l t] obtain v where v: "x = v @ t" "matches (Lazy r) v" by blast
    show ?thesis using u v by (auto intro: m_Lazy1)
  qed
qed

lemma bt_complete: "matches r u \<Longrightarrow> t \<in> set (bt r (u @ t))"
proof (induction r u arbitrary: t rule: matches.induct)
  case (m_Seq r1 u r2 v)
  have "v @ t \<in> set (bt r1 (u @ v @ t))" using m_Seq.IH(1) by simp
  moreover have "t \<in> set (bt r2 (v @ t))" using m_Seq.IH(2) by simp
  ultimately show ?case by auto
next
  case (m_Star1 r u v)
  show ?case
  proof (cases "u = []")
    case True
    then show ?thesis using m_Star1.IH(2) by simp
  next
    case False
    have "v @ t \<in> set (bt r (u @ v @ t))" using m_Star1.IH(1) by simp
    moreover have "length (v @ t) < length (u @ v @ t)" using False by simp
    moreover have "t \<in> set (bt (Star r) (v @ t))" using m_Star1.IH(2) by simp
    ultimately show ?thesis unfolding bt.simps(6)[of r "(u @ v) @ t"] by auto
  qed
next
  case (m_Lazy1 r u v)
  show ?case
  proof (cases "u = []")
    case True
    then show ?thesis using m_Lazy1.IH(2) by simp
  next
    case False
    have "v @ t \<in> set (bt r (u @ v @ t))" using m_Lazy1.IH(1) by simp
    moreover have "length (v @ t) < length (u @ v @ t)" using False by simp
    moreover have "t \<in> set (bt (Lazy r) (v @ t))" using m_Lazy1.IH(2) by simp
    ultimately show ?thesis unfolding bt.simps(7)[of r "(u @ v) @ t"] by auto
  qed
next
  case (m_Star0 r)
  show ?case unfolding bt.simps(6)[of r "[] @ t"] by simp
next
  case (m_Lazy0 r)
  show ?case unfolding bt.simps(7)[of r "[] @ t"] by simp
qed auto

inductive_simps matches_Sym: "matches (Sym p) w"
inductive_simps matches_Eps: "matches Eps w"
inductive_simps matches_Seq: "matches (Seq r1 r2) w"
inductive_simps matches_Alt: "matches (Alt r1 r2) w"

lemma matches_Star_class_D: "matches r w \<Longrightarrow> r = Star (Sym p) \<Longrightarrow> list_all p w"
  by (induction r w rule: matches.induct) (auto simp: matches_Sym)

lemma matches_Star_class_I: "list_all p w \<Longrightarrow> matches (Star (Sym p)) w"
proof (induction w)
  case Nil
  show ?case by (rule m_Star0)
next
  case (Cons c w)
  then have "matches (Sym p) [c]" "matches (Star (Sym p)) w" by (auto intro: m_Sym)
  then have "matches (Star (Sym p)) ([c] @ w)" by (rule m_Star1)
  then show ?case by simp
qed

lemma matches_Star_class: "matches (Star (Sym p)) w \<longleftrightarrow> list_all p w"
  using matches_Star_class_D matches_Star_class_I by blast

lemma matches_Lazy_class_I: "list_all p w \<Longrightarrow> matches (Lazy (Sym p)) w"
proof (induction w)
  case Nil
  show ?case by (rule m_Lazy0)
next
  case (Cons c w)
  then have "matches (Sym p) [c]" "matches (Lazy (Sym p)) w" by (auto intro: m_Sym)
  then have "matches (Lazy (Sym p)) ([c] @ w)" by (rule m_Lazy1)
  then show ?case by simp
qed

lemma matches_Seq_Sym: "matches (Seq (Sym p) r) w \<longleftrightarrow> (\<exists>c v. w = c # v \<and> p c \<and> matches r v)"
proof
  assume "matches (Seq (Sym p) r) w"
  then show "\<exists>c v. w = c # v \<and> p c \<and> matches r v"
    by (auto simp: matches_Seq matches_Sym)
next
  assume "\<exists>c v. w = c # v \<and> p c \<and> matches r v"
  then obtain c v where w: "w = [c] @ v" and "p c" "matches r v" by auto
  then have "matches (Sym p) [c]" "matches r v" by (auto intro: m_Sym)
  then show "matches (Seq (Sym p) r) w" unfolding w by (rule m_Seq)
qed

lemma matches_Plus_class: "matches (Plus (Sym p)) w \<longleftrightarrow> w \<noteq> [] \<and> list_all p w"
  by (cases w) (auto simp: Plus_def matches_Seq_Sym matches_Star_class)

lemma matches_Opt: "matches (Opt r) w \<longleftrightarrow> matches r w \<or> w = []"
  by (auto simp: Opt_def matches_Alt matches_Eps)

lemma matches_Rep24_class:
  "matches (Rep24 (Sym p)) w \<longleftrightarrow> list_all p w \<and> 2 \<le> length w \<and> length w \<le> 4"
proof
  assume "matches (Rep24 (Sym p)) w"
  then show "list_all p w \<and> 2 \<le> length w \<and> length w \<le> 4"
    by (auto simp: Rep24_def matches_Seq_Sym matches_Sym matches_Opt)
next
  assume a: "list_all p w \<and> 2 \<le> length w \<and> length w \<le> 4"
  then obtain c1 c2 w' where w: "w = c1 # c2 # w'" "length w' \<le> 2"
    by (cases w; cases "tl w") auto
  then consider "w' = []" | c3 where "w' = [c3]" | c3 c4 where "w' = [c3, c4]"
    by (cases w'; cases "tl w'") auto
  then show "matches (Rep24 (Sym p)) w"
  proof cases
    case 1
    with w a show ?thesis by (auto simp: Rep24_def matches_Seq_Sym matches_Sym matches_Opt)
  next
    case 2
    with w a show ?thesis by (auto simp: Rep24_def matches_Seq_Sym matches_Sym matches_Opt)
  next
    case 3
    with w a show ?thesis by (auto simp: Rep24_def matches_Seq_Sym matches_Sym matches_Opt)
  qed
qed

section \<open>Searching a line\<close>

lemma match_prefix_None: "match_prefix r s = None \<longleftrightarrow> bt r s = []"
  by (simp add: match_prefix_def split: list.splits)


lemma match_prefix_Some:
  assumes "match_prefix r s = Some m"
  shows "\<exists>b ts. s = m @ b \<and> bt r s = b # ts \<and> matches r m"
proof -
  from assms obtain t ts where t: "bt r s = t # ts" and m: "m = take (length s - length t) s"
    by (auto simp: match_prefix_def split: list.splits)
  from t have "t \<in> set (bt r s)" by simp
  from bt_sound[OF this] obtain u where u: "s = u @ t" "matches r u" by blast
  with m have "m = u" by simp
  with u t show ?thesis by blast
qed

lemma search_None: "search r s = None \<longleftrightarrow> (\<forall>a b. s = a @ b \<longrightarrow> bt r b = [])"
proof (induction s)
  case Nil
  then show ?case by (simp add: match_prefix_None)
next
  case (Cons c cs)
  show ?case
  proof
    assume n: "search r (c # cs) = None"
    then have h: "bt r (c # cs) = []" and t: "search r cs = None"
      by (auto simp: match_prefix_None[symmetric] split: option.splits)
    show "\<forall>a b. c # cs = a @ b \<longrightarrow> bt r b = []"
    proof (intro allI impI)
      fix a b assume e: "c # cs = a @ b"
      show "bt r b = []"
      proof (cases a)
        case Nil
        with e h show ?thesis by simp
      next
        case (Cons x a')
        with e have "cs = a' @ b" by simp
        with t Cons.IH show ?thesis by blast
      qed
    qed
  next
    assume a: "\<forall>a b. c # cs = a @ b \<longrightarrow> bt r b = []"
    then have "bt r (c # cs) = []" by (metis append_Nil)
    moreover have "\<forall>a b. cs = a @ b \<longrightarrow> bt r b = []" using a by (metis append_Cons)
    ultimately show "search r (c # cs) = None"
      using Cons.IH by (simp add: match_prefix_None[symmetric])
  qed
qed

lemma search_found: "bt r b \<noteq> [] \<Longrightarrow> search r (a @ b) \<noteq> None"
  using search_None[of r "a @ b"] by blast

lemma search_Some:
  "search r s = Some m \<Longrightarrow>
   \<exists>a b ts. s = a @ m @ b \<and> bt r (m @ b) = b # ts \<and> matches r m
     \<and> (\<forall>a' b'. s = a' @ b' \<and> length a' < length a \<longrightarrow> bt r b' = [])"
proof (induction s)
  case Nil
  then have "match_prefix r [] = Some m" by simp
  from match_prefix_Some[OF this] obtain b ts where "[] = m @ b" "bt r [] = b # ts" "matches r m"
    by blast
  then show ?case by (intro exI[of _ "[]"] exI[of _ b] exI[of _ ts]) auto
next
  case (Cons c cs)
  show ?case
  proof (cases "match_prefix r (c # cs)")
    case (Some m')
    with Cons.prems have "m' = m" by simp
    with Some match_prefix_Some[of r "c # cs" m] obtain b ts
      where "c # cs = m @ b" "bt r (c # cs) = b # ts" "matches r m" by blast
    then show ?thesis by (intro exI[of _ "[]"] exI[of _ b] exI[of _ ts]) auto
  next
    case None
    with Cons.prems have "search r cs = Some m" by simp
    from Cons.IH[OF this] obtain a b ts where
      s: "cs = a @ m @ b" and h: "bt r (m @ b) = b # ts" and m: "matches r m"
      and l: "\<forall>a' b'. cs = a' @ b' \<and> length a' < length a \<longrightarrow> bt r b' = []" by blast
    have "\<forall>a' b'. c # cs = a' @ b' \<and> length a' < length (c # a) \<longrightarrow> bt r b' = []"
    proof (intro allI impI)
      fix a' b' assume e: "c # cs = a' @ b' \<and> length a' < length (c # a)"
      show "bt r b' = []"
      proof (cases a')
        case Nil
        with e None show ?thesis by (simp add: match_prefix_None)
      next
        case (Cons x a'')
        with e have "cs = a'' @ b' \<and> length a'' < length a" by simp
        with l show ?thesis by blast
      qed
    qed
    with s h m show ?thesis by (intro exI[of _ "c # a"] exI[of _ b] exI[of _ ts]) auto
  qed
qed


lemma search_sublist: "search r s = None \<or> (\<exists>m. search r s = Some m \<and> sublist m s \<and> matches r m)"
proof (cases "search r s")
  case None
  then show ?thesis by simp
next
  case (Some m)
  from search_Some[OF this] show ?thesis using Some by (auto simp: sublist_def)
qed

lemma search_matches:
  assumes "matches r u"
  shows "search r (a @ u @ b) \<noteq> None"
proof -
  have "b \<in> set (bt r (u @ b))" using assms by (rule bt_complete)
  then have "bt r (u @ b) \<noteq> []" by auto
  then show ?thesis by (rule search_found)
qed

section \<open>The first match at a position\<close>





lemma bt_Sym_stop: "s = [] \<or> \<not> p (hd s) \<Longrightarrow> bt (Sym p) s = []"
  by (cases s) auto











lemma yields_Rep24_class:
  assumes "list_all p e" "2 \<le> length e" "4 \<le> length e \<or> s = [] \<or> \<not> p (hd s)"
  shows "yields (Rep24 (Sym p)) (e @ s) (drop 4 e @ s)"
proof -
  from assms(1,2) obtain a b e' where e: "e = a # b # e'" "p a" "p b" "list_all p e'"
    by (cases e; cases "tl e") auto
  show ?thesis
  proof (cases e')
    case Nil
    with e assms(3) show ?thesis
      by (cases s) (auto simp: yields_def Rep24_def Opt_def)
  next
    case (Cons c e'')
    note c = this
    show ?thesis
    proof (cases e'')
      case Nil
      with c e assms(3) show ?thesis
        by (cases s) (auto simp: yields_def Rep24_def Opt_def)
    next
      case (Cons d e''')
      with c e show ?thesis by (auto simp: yields_def Rep24_def Opt_def)
    qed
  qed
qed

lemma search_leftmost:
  assumes "search r s = Some m"
  shows "\<exists>a b. s = a @ m @ b \<and> matches r m \<and> yields r (m @ b) b
     \<and> (\<forall>a' u b'. s = a' @ u @ b' \<and> matches r u \<longrightarrow> length a \<le> length a')"
proof -
  from search_Some[OF assms] obtain a b ts where
    s: "s = a @ m @ b" and h: "bt r (m @ b) = b # ts" and m: "matches r m"
    and l: "\<forall>a' b'. s = a' @ b' \<and> length a' < length a \<longrightarrow> bt r b' = []" by blast
  have "length a \<le> length a'" if "s = a' @ u @ b'" "matches r u" for a' u b'
  proof (rule ccontr)
    assume "\<not> length a \<le> length a'"
    then have "s = a' @ (u @ b') \<and> length a' < length a" using that(1) by simp
    with l have "bt r (u @ b') = []" by blast
    moreover have "b' \<in> set (bt r (u @ b'))" using that(2) by (rule bt_complete)
    ultimately show False by simp
  qed
  with s h m show ?thesis unfolding yields_def by blast
qed

section \<open>What the engine tried before its first match\<close>

lemma yields_unique: "yields r s t \<Longrightarrow> yields r s u \<Longrightarrow> t = u"
  by (auto simp: yields_def)

lemma concat_map_concat_map:
  "concat (map f (concat (map g xs))) = concat (map (\<lambda>x. concat (map f (g x))) xs)"
  by (induction xs) simp_all

lemma bt_Seq_assoc: "bt (Seq (Seq r1 r2) r3) s = bt (Seq r1 (Seq r2 r3)) s"
proof -
  have "bt (Seq r2 r3) = (\<lambda>x. concat (map (bt r3) (bt r2 x)))" by (rule ext) simp
  then show ?thesis by (simp add: concat_map_concat_map)
qed

lemma yields_Seq_assoc: "yields (Seq (Seq r1 r2) r3) s u = yields (Seq r1 (Seq r2 r3)) s u"
  by (simp only: yields_def bt_Seq_assoc)

lemma yields_Seq_SymD:
  assumes "yields (Seq (Sym p) r) s u"
  obtains c s' where "s = c # s'" "p c" "yields r s' u"
proof (cases s)
  case Nil
  with assms show ?thesis by (simp add: yields_def)
next
  case (Cons c s')
  with assms have "p c" "yields r s' u" by (auto simp: yields_def split: if_splits)
  with Cons that show ?thesis by blast
qed

lemma bt_Star_class_step: "p c \<Longrightarrow> bt (Star (Sym p)) (c # t) = bt (Star (Sym p)) t @ [c # t]"
  unfolding bt.simps(6)[of "Sym p" "c # t"] by simp

lemma bt_Seq_Star_class_step:
  "p c \<Longrightarrow> bt (Seq (Star (Sym p)) r) (c # t) = bt (Seq (Star (Sym p)) r) t @ bt r (c # t)"
  by (simp add: bt_Star_class_step)

lemma Star_class_reaches:
  assumes "list_all p v1"
  shows "v2 \<in> set (bt (Star (Sym p)) (v1 @ v2))"
  using assms by (intro bt_complete matches_Star_class_I)

lemma Star_class_backtrack:
  assumes "list_all p w" "yields (Seq (Star (Sym p)) r) (w @ s) u" "s = [] \<or> \<not> p (hd s)"
  shows "\<exists>w1 w2. w = w1 @ w2 \<and> yields r (w2 @ s) u
     \<and> (\<forall>v1 v2. w = v1 @ v2 \<and> length v2 < length w2 \<longrightarrow> bt r (v2 @ s) = [])"
  using assms(1,2)
proof (induction w)
  case Nil
  have "bt (Star (Sym p)) s = [s]"
    unfolding bt.simps(6)[of "Sym p" s] using assms(3) by (simp add: bt_Sym_stop)
  with Nil.prems(2) show ?case by (simp add: yields_def)
next
  case (Cons c w)
  then have pc: "p c" and pw: "list_all p w" by simp_all
  note IH = Cons.IH
  from Cons.prems(2) obtain us where us: "bt (Seq (Star (Sym p)) r) (c # w @ s) = u # us"
    by (auto simp: yields_def simp del: bt.simps(4))
  have step: "bt (Seq (Star (Sym p)) r) (c # w @ s)
      = bt (Seq (Star (Sym p)) r) (w @ s) @ bt r (c # w @ s)"
    using pc by (rule bt_Seq_Star_class_step)
  show ?case
  proof (cases "bt (Seq (Star (Sym p)) r) (w @ s)")
    case Nil
    with step us have "bt r (c # w @ s) = u # us" by (simp del: bt.simps(4))
    then have y: "yields r ((c # w) @ s) u" by (simp add: yields_def)
    have f: "bt r (v2 @ s) = []" if "c # w = v1 @ v2" "length v2 < length (c # w)" for v1 v2
    proof -
      from that obtain v1' where v: "w = v1' @ v2" by (cases v1) auto
      with pw have "list_all p v1'" by simp
      then have "v2 @ s \<in> set (bt (Star (Sym p)) (v1' @ v2 @ s))" by (rule Star_class_reaches)
      with v have "set (bt r (v2 @ s)) \<subseteq> set (bt (Seq (Star (Sym p)) r) (w @ s))" by auto
      with Nil show ?thesis by (simp del: bt.simps(4))
    qed
    have "c # w = [] @ (c # w) \<and> yields r ((c # w) @ s) u
       \<and> (\<forall>v1 v2. c # w = v1 @ v2 \<and> length v2 < length (c # w) \<longrightarrow> bt r (v2 @ s) = [])"
      using y f by blast
    then show ?thesis by blast
  next
    case (Cons t ts)
    with step us have "bt (Seq (Star (Sym p)) r) (w @ s) = u # ts" by (simp del: bt.simps(4))
    then have "yields (Seq (Star (Sym p)) r) (w @ s) u" unfolding yields_def by blast
    from IH[OF pw this] obtain w1 w2 where w: "w = w1 @ w2" "yields r (w2 @ s) u"
      and l: "\<forall>v1 v2. w = v1 @ v2 \<and> length v2 < length w2 \<longrightarrow> bt r (v2 @ s) = []" by blast
    have f: "bt r (v2 @ s) = []" if "c # w = v1 @ v2" "length v2 < length w2" for v1 v2
    proof -
      from that w(1) obtain v1' where "w = v1' @ v2" by (cases v1) auto
      with l that(2) show ?thesis by blast
    qed
    have "c # w = (c # w1) @ w2 \<and> yields r (w2 @ s) u
       \<and> (\<forall>v1 v2. c # w = v1 @ v2 \<and> length v2 < length w2 \<longrightarrow> bt r (v2 @ s) = [])"
      using w f by simp
    then show ?thesis by blast
  qed
qed

lemma takeWhile_class:
  assumes "list_all p w" "s = [] \<or> \<not> p (hd s)"
  shows "takeWhile p (w @ s) = w"
proof -
  have "takeWhile p s = []" using assms(2) by (cases s) auto
  with assms(1) show ?thesis by (simp add: list_all_iff)
qed

lemma class_prefix:
  assumes "list_all p w" "s = [] \<or> \<not> p (hd s)" "w @ s = d @ t" "list_all p d"
  obtains v where "w = d @ v" "v @ s = t"
proof -
  have "w = takeWhile p (d @ t)" using takeWhile_class[OF assms(1,2)] assms(3) by simp
  also have "\<dots> = d @ takeWhile p t" using assms(4) by (simp add: list_all_iff)
  finally have w: "w = d @ takeWhile p t" .
  with assms(3) have "takeWhile p t @ s = t" by simp
  with w that show ?thesis by blast
qed

lemma Plus_class_backtrack:
  assumes "yields (Seq (Plus (Sym p)) r) s u"
  obtains c w1 w2 s' where "s = c # w1 @ w2 @ s'" "p c" "list_all p (w1 @ w2)"
    "s' = [] \<or> \<not> p (hd s')" "yields r (w2 @ s') u"
    "\<forall>v1 v2. w1 @ w2 = v1 @ v2 \<and> length v2 < length w2 \<longrightarrow> bt r (v2 @ s') = []"
proof -
  from assms have "yields (Seq (Sym p) (Seq (Star (Sym p)) r)) s u"
    by (simp only: Plus_def yields_Seq_assoc)
  then obtain c t where t: "s = c # t" "p c" "yields (Seq (Star (Sym p)) r) t u"
    by (rule yields_Seq_SymD)
  let ?w = "takeWhile p t" and ?s = "dropWhile p t"
  have w: "list_all p ?w" by (auto simp: list_all_iff dest: set_takeWhileD)
  have s: "?s = [] \<or> \<not> p (hd ?s)" using hd_dropWhile[of p t] by blast
  from t(3) have "yields (Seq (Star (Sym p)) r) (?w @ ?s) u" by simp
  from Star_class_backtrack[OF w this s] obtain w1 w2 where
    "?w = w1 @ w2" "yields r (w2 @ ?s) u"
    "\<forall>v1 v2. ?w = v1 @ v2 \<and> length v2 < length w2 \<longrightarrow> bt r (v2 @ ?s) = []" by blast
  moreover from this(1) have "s = c # w1 @ w2 @ ?s" using t(1)
    by (metis append_assoc takeWhile_dropWhile_id)
  ultimately show ?thesis using that[of c w1 w2 ?s] t(2) w s by simp
qed

lemma yields_Rep24_D:
  assumes "yields (Rep24 (Sym p)) s b"
  obtains e where "s = e @ b" "list_all p e" "2 \<le> length e" "length e \<le> 4"
    "\<forall>e' b'. s = e' @ b' \<and> list_all p e' \<and> length e' \<le> 4 \<longrightarrow> length e' \<le> length e"
proof -
  from assms have "b \<in> set (bt (Rep24 (Sym p)) s)" by (auto simp: yields_def)
  from bt_sound[OF this] obtain e1 where e1: "s = e1 @ b" "list_all p e1" "2 \<le> length e1"
    by (auto simp: matches_Rep24_class)
  let ?e = "takeWhile p s" and ?r = "dropWhile p s"
  have pe: "list_all p ?e" by (auto simp: list_all_iff dest: set_takeWhileD)
  have r: "?r = [] \<or> \<not> p (hd ?r)" using hd_dropWhile[of p s] by blast
  have mx: "length e' \<le> length ?e" if "s = e' @ b'" "list_all p e'" for e' b'
    using that by (simp add: list_all_iff)
  from mx[OF e1(1,2)] e1(3) have l: "2 \<le> length ?e" by simp
  have "yields (Rep24 (Sym p)) (?e @ ?r) (drop 4 ?e @ ?r)"
    using pe l r by (intro yields_Rep24_class) auto
  then have "yields (Rep24 (Sym p)) s (drop 4 ?e @ ?r)" by simp
  with assms have b: "b = drop 4 ?e @ ?r" by (rule yields_unique)
  have "s = (take 4 ?e @ drop 4 ?e) @ ?r" by simp
  then have 1: "s = take 4 ?e @ b" unfolding b by (simp only: append_assoc)
  have 2: "list_all p (take 4 ?e)" using pe by (auto simp: list_all_iff dest: in_set_takeD)
  have 3: "2 \<le> length (take 4 ?e)" "length (take 4 ?e) \<le> 4" using l by simp_all
  have 4: "\<forall>e' b'. s = e' @ b' \<and> list_all p e' \<and> length e' \<le> 4
      \<longrightarrow> length e' \<le> length (take 4 ?e)"
    using mx by auto
  from that[OF 1 2 3 4] show ?thesis .
qed

section \<open>The email pattern\<close>

lemma matches_email: "matches email_regex t \<longleftrightarrow> email_token t"
  unfolding email_regex_def email_token_def
  by (simp add: matches_Seq matches_Sym matches_Plus_class matches_Rep24_class lit_def) blast

lemma email_token_at: "email_token t \<Longrightarrow> CHR ''@'' \<in> set t"
  by (auto simp: email_token_def)


lemma alpha_not_dot: "is_alpha c \<Longrightarrow> c \<noteq> CHR ''.''"
  by (auto simp: is_alpha_def is_upper_def is_lower_def code_def)

lemma local_not_at: "local_char c \<Longrightarrow> c \<noteq> CHR ''@''"
  by (auto simp: local_char_def is_alpha_def is_upper_def is_lower_def is_digit_def one_of_def code_def)







lemma email_tokenE:
  assumes "email_token u"
  obtains l d e where "u = l @ CHR ''@'' # d @ CHR ''.'' # e" "l \<noteq> []" "list_all local_char l"
    "d \<noteq> []" "list_all domain_char d" "list_all is_alpha e" "2 \<le> length e" "length e \<le> 4"
proof -
  from assms obtain l d e where "u = l @ ''@'' @ d @ ''.'' @ e" "l \<noteq> []" "list_all local_char l"
    "d \<noteq> []" "list_all domain_char d" "list_all is_alpha e" "2 \<le> length e" "length e \<le> 4"
    unfolding email_token_def by blast
  then show ?thesis using that[of l d e] by simp
qed

lemma split_first:
  assumes "x \<notin> set xs" "x \<notin> set ys" "xs @ x # xs' = ys @ x # ys'"
  shows "xs = ys \<and> xs' = ys'"
  using assms
proof (induction xs arbitrary: ys)
  case Nil
  then show ?case by (cases ys) auto
next
  case (Cons a xs)
  then show ?case by (cases ys) auto
qed

lemma email_longest:
  assumes y: "yields email_regex (m @ b) b" and eq: "m @ b = u @ b'" and tok: "email_token u"
  shows "length u \<le> length m"
proof -
  let ?tld = "Rep24 (Sym is_alpha)"
  let ?R3 = "Seq (Sym (lit CHR ''.'')) ?tld"
  let ?R2 = "Seq (Plus (Sym domain_char)) ?R3"
  let ?R1 = "Seq (Sym (lit CHR ''@'')) ?R2"
  \<comment> \<open>what the engine did\<close>
  from y have "yields (Seq (Plus (Sym local_char)) ?R1) (m @ b) b" by (simp only: email_regex_def)
  then obtain c w1 w2 s' where 1: "m @ b = c # w1 @ w2 @ s'" "local_char c"
    "list_all local_char (w1 @ w2)" "yields ?R1 (w2 @ s') b"
    by (rule Plus_class_backtrack)
  from 1(4) obtain a s2 where 2: "w2 @ s' = a # s2" "lit CHR ''@'' a" "yields ?R2 s2 b"
    by (rule yields_Seq_SymD)
  have "w2 = []"
  proof (cases w2)
    case (Cons x xs)
    with 2(1,2) 1(3) have "local_char CHR ''@''" by (simp add: lit_def)
    then show ?thesis using local_not_at by blast
  qed simp
  with 1(1) 2(1,2) have m1: "m @ b = (c # w1) @ CHR ''@'' # s2" by (simp add: lit_def)
  have loc: "CHR ''@'' \<notin> set (c # w1)" using 1(2,3) local_not_at by (auto simp: list_all_iff)
  from 2(3) obtain c2 x1 x2 s3 where 3: "s2 = c2 # x1 @ x2 @ s3" "list_all domain_char (x1 @ x2)"
    "s3 = [] \<or> \<not> domain_char (hd s3)" "yields ?R3 (x2 @ s3) b"
    "\<forall>v1 v2. x1 @ x2 = v1 @ v2 \<and> length v2 < length x2 \<longrightarrow> bt ?R3 (v2 @ s3) = []"
    by (rule Plus_class_backtrack)
  from 3(4) obtain a' s4 where 4: "x2 @ s3 = a' # s4" "lit CHR ''.'' a'" "yields ?tld s4 b"
    by (rule yields_Seq_SymD)
  from 4(3) obtain e where 5: "s4 = e @ b"
    "\<forall>e' b'. s4 = e' @ b' \<and> list_all is_alpha e' \<and> length e' \<le> 4 \<longrightarrow> length e' \<le> length e"
    by (rule yields_Rep24_D)
  have "m @ b = ((c # w1) @ CHR ''@'' # c2 # x1 @ CHR ''.'' # e) @ b"
    using m1 3(1) 4(1,2) 5(1) by (simp add: lit_def)
  then have m: "m = (c # w1) @ CHR ''@'' # c2 # x1 @ CHR ''.'' # e" by (simp only: append_same_eq)
  \<comment> \<open>the other token\<close>
  from tok obtain l' d' e' where u: "u = l' @ CHR ''@'' # d' @ CHR ''.'' # e'"
    "list_all local_char l'" "d' \<noteq> []" "list_all domain_char d'" "list_all is_alpha e'"
    "2 \<le> length e'" "length e' \<le> 4"
    by (rule email_tokenE)
  have loc': "CHR ''@'' \<notin> set l'" using u(2) local_not_at by (auto simp: list_all_iff)
  from m1 eq u(1) have "(c # w1) @ CHR ''@'' # s2 = l' @ CHR ''@'' # (d' @ CHR ''.'' # e' @ b')"
    by simp
  then have "c # w1 = l' \<and> s2 = d' @ CHR ''.'' # e' @ b'"
    by (rule split_first[OF loc loc'])
  then have 6: "c # w1 = l'" "s2 = d' @ CHR ''.'' # e' @ b'" by (rule conjunct1, rule conjunct2)
  from u(3,4) obtain c2' d'' where d: "d' = c2' # d''" "list_all domain_char d''"
    by (cases d') auto
  with 6(2) 3(1) have 7: "(x1 @ x2) @ s3 = d'' @ CHR ''.'' # e' @ b'" by simp
  from class_prefix[OF 3(2,3) 7 d(2)] obtain v2 where
    v: "x1 @ x2 = d'' @ v2" "v2 @ s3 = CHR ''.'' # e' @ b'" by blast
  have "matches ?R3 (CHR ''.'' # e')"
    using u(5,6,7) by (simp add: matches_Seq_Sym matches_Rep24_class lit_def)
  then have "b' \<in> set (bt ?R3 ((CHR ''.'' # e') @ b'))" by (rule bt_complete)
  with v(2) have "bt ?R3 (v2 @ s3) \<noteq> []" by auto
  with 3(5) v(1) have "\<not> length v2 < length x2" by blast
  then have le: "length x2 \<le> length v2" by simp
  from v(1) obtain z where z: "x1 = d'' @ z" "v2 = z @ x2"
  proof -
    from v(1) obtain us where "(x1 = d'' @ us \<and> us @ x2 = v2) \<or> (x1 @ us = d'' \<and> x2 = us @ v2)"
      unfolding append_eq_append_conv2 by blast
    then show ?thesis
    proof
      assume "x1 = d'' @ us \<and> us @ x2 = v2"
      then show ?thesis using that by blast
    next
      assume a: "x1 @ us = d'' \<and> x2 = us @ v2"
      with le have "us = []" by simp
      with a show ?thesis using that[of "[]"] by simp
    qed
  qed
  have "length e' \<le> length z + length e"
  proof (cases z)
    case Nil
    with z(2) v(2) 4(1,2) have "s4 = e' @ b'" by (simp add: lit_def)
    with 5(2) u(5,7) have "length e' \<le> length e" by blast
    then show ?thesis by simp
  next
    case (Cons q z')
    with z(2) v(2) 4(1,2) have "z' @ CHR ''.'' # s4 = e' @ b'" by (simp add: lit_def)
    then obtain us where
      "(z' = e' @ us \<and> us @ CHR ''.'' # s4 = b') \<or> (z' @ us = e' \<and> CHR ''.'' # s4 = us @ b')"
      unfolding append_eq_append_conv2 by blast
    then have "length e' \<le> length z'"
    proof
      assume "z' = e' @ us \<and> us @ CHR ''.'' # s4 = b'"
      then show ?thesis by auto
    next
      assume a: "z' @ us = e' \<and> CHR ''.'' # s4 = us @ b'"
      show ?thesis
      proof (cases us)
        case Nil
        with a show ?thesis by simp
      next
        case (Cons x us')
        with a have "CHR ''.'' \<in> set e'" by auto
        with u(5) have "is_alpha CHR ''.''" by (simp add: list_all_iff)
        then show ?thesis using alpha_not_dot by blast
      qed
    qed
    with Cons show ?thesis by simp
  qed
  with m u(1) 6(1) d(1) z(1) show ?thesis by simp
qed


section \<open>The quoted assignment of lines 38 and 39\<close>

lemma matches_assigned_quoted:
  assumes "list_all is_space w1" "is_sep sep" "list_all is_space w2" "is_quote q1"
    "list_all is_any v" "is_quote q2"
  shows "matches assigned_quoted (w1 @ [sep] @ w2 @ [q1] @ v @ [q2])"
  unfolding assigned_quoted_def
proof (intro m_Seq)
  show "matches (Star (Sym is_space)) w1" using assms(1) by (rule matches_Star_class_I)
  show "matches (Sym is_sep) [sep]" using assms(2) by (rule m_Sym)
  show "matches (Star (Sym is_space)) w2" using assms(3) by (rule matches_Star_class_I)
  show "matches (Sym is_quote) [q1]" using assms(4) by (rule m_Sym)
  show "matches (Lazy (Sym is_any)) v" using assms(5) by (rule matches_Lazy_class_I)
  show "matches (Sym is_quote) [q2]" using assms(6) by (rule m_Sym)
qed




section \<open>Letter case\<close>

lemma same_under_length: "same_under f s t \<Longrightarrow> length s = length t"
  unfolding same_under_def by (rule map_eq_imp_length_eq)

lemma list_all2_concat:
  "list_all2 (list_all2 R) xss yss \<Longrightarrow> list_all2 R (concat xss) (concat yss)"
  by (induction xss yss rule: list_all2_induct) (auto intro: list_all2_appendI)

lemma list_all2_map_both:
  assumes "list_all2 R xs ys" "\<And>x y. x \<in> set xs \<Longrightarrow> R x y \<Longrightarrow> Q (f x) (g y)"
  shows "list_all2 Q (map f xs) (map g ys)"
  using assms by (induction xs ys rule: list_all2_induct) auto

lemma bt_blind:
  "blind_to f r \<Longrightarrow> same_under f s t \<Longrightarrow> list_all2 (same_under f) (bt r s) (bt r t)"
proof (induction r s arbitrary: t rule: bt.induct)
  case (1 p)
  then show ?case by (simp add: same_under_def)
next
  case (2 p c cs)
  from "2.prems"(2) obtain d ds where t: "t = d # ds" and l: "f c = f d"
    and r: "same_under f cs ds" by (cases t) (auto simp: same_under_def)
  from "2.prems"(1) have "p c = p (f c)" "p d = p (f d)" by simp_all
  with l have "p c = p d" by simp
  with t r show ?case by simp
next
  case (3 s)
  then show ?case by simp
next
  case (4 r1 r2 s)
  from "4.prems" have f: "blind_to f r1" "blind_to f r2" by simp_all
  have a: "list_all2 (same_under f) (bt r1 s) (bt r1 t)" using "4.IH"(1) f(1) "4.prems"(2) by blast
  have "list_all2 (list_all2 (same_under f)) (map (bt r2) (bt r1 s)) (map (bt r2) (bt r1 t))"
    using a
  proof (rule list_all2_map_both)
    fix x y assume "x \<in> set (bt r1 s)" "same_under f x y"
    then show "list_all2 (same_under f) (bt r2 x) (bt r2 y)" using "4.IH"(2) f(2) by blast
  qed
  then show ?case by (simp add: list_all2_concat)
next
  case (5 r1 r2 s)
  then show ?case by (auto intro: list_all2_appendI)
next
  case (6 r s)
  from "6.prems" have f: "blind_to f r" by simp
  have len: "length s = length t" using "6.prems"(2) by (rule same_under_length)
  have a: "list_all2 (same_under f) (bt r s) (bt r t)" using "6.IH"(1) f "6.prems"(2) by blast
  have "list_all2 (list_all2 (same_under f))
          (map (\<lambda>x. if length x < length s then bt (Star r) x else []) (bt r s))
          (map (\<lambda>x. if length x < length t then bt (Star r) x else []) (bt r t))"
    using a
  proof (rule list_all2_map_both)
    fix x y assume x: "x \<in> set (bt r s)" and xy: "same_under f x y"
    then have "length x = length y" by (simp add: same_under_length)
    with len "6.IH"(2)[OF x _ "6.prems"(1) xy]
    show "list_all2 (same_under f) (if length x < length s then bt (Star r) x else [])
            (if length y < length t then bt (Star r) y else [])" by simp
  qed
  then have "list_all2 (same_under f)
          (concat (map (\<lambda>x. if length x < length s then bt (Star r) x else []) (bt r s)) @ [s])
          (concat (map (\<lambda>x. if length x < length t then bt (Star r) x else []) (bt r t)) @ [t])"
    using "6.prems"(2) by (intro list_all2_appendI list_all2_concat) simp_all
  then show ?case unfolding bt.simps(6)[of r s] bt.simps(6)[of r t] .
next
  case (7 r s)
  from "7.prems" have f: "blind_to f r" by simp
  have len: "length s = length t" using "7.prems"(2) by (rule same_under_length)
  have a: "list_all2 (same_under f) (bt r s) (bt r t)" using "7.IH"(1) f "7.prems"(2) by blast
  have "list_all2 (list_all2 (same_under f))
          (map (\<lambda>x. if length x < length s then bt (Lazy r) x else []) (bt r s))
          (map (\<lambda>x. if length x < length t then bt (Lazy r) x else []) (bt r t))"
    using a
  proof (rule list_all2_map_both)
    fix x y assume x: "x \<in> set (bt r s)" and xy: "same_under f x y"
    then have "length x = length y" by (simp add: same_under_length)
    with len "7.IH"(2)[OF x _ "7.prems"(1) xy]
    show "list_all2 (same_under f) (if length x < length s then bt (Lazy r) x else [])
            (if length y < length t then bt (Lazy r) y else [])" by simp
  qed
  then have "list_all2 (same_under f)
          (s # concat (map (\<lambda>x. if length x < length s then bt (Lazy r) x else []) (bt r s)))
          (t # concat (map (\<lambda>x. if length x < length t then bt (Lazy r) x else []) (bt r t)))"
    using "7.prems"(2) by (simp add: list_all2_concat)
  then show ?case unfolding bt.simps(7)[of r s] bt.simps(7)[of r t] .
qed

lemma match_prefix_blind:
  assumes "blind_to f r" "same_under f s t"
  shows "rel_option (same_under f) (match_prefix r s) (match_prefix r t)"
proof -
  have a: "list_all2 (same_under f) (bt r s) (bt r t)" using assms by (rule bt_blind)
  have len: "length s = length t" using assms(2) by (rule same_under_length)
  show ?thesis
  proof (cases "bt r s")
    case Nil
    with a have "bt r t = []" by simp
    with Nil show ?thesis by (simp add: match_prefix_def)
  next
    case (Cons x xs)
    with a obtain y ys where y: "bt r t = y # ys" and xy: "same_under f x y"
      by (auto simp: list_all2_Cons1)
    from xy have "length x = length y" by (rule same_under_length)
    with len assms(2) have "same_under f (take (length s - length x) s) (take (length t - length y) t)"
      by (simp add: same_under_def take_map[symmetric])
    with Cons y show ?thesis by (simp add: match_prefix_def)
  qed
qed

lemma search_blind:
  "blind_to f r \<Longrightarrow> same_under f s t \<Longrightarrow> rel_option (same_under f) (search r s) (search r t)"
proof (induction s arbitrary: t)
  case Nil
  then have "t = []" by (simp add: same_under_def)
  with Nil match_prefix_blind[of f r "[]" "[]"] show ?case by simp
next
  case (Cons c cs)
  from Cons.prems(2) obtain d ds where t: "t = d # ds" and r: "same_under f cs ds"
    by (cases t) (auto simp: same_under_def)
  have m: "rel_option (same_under f) (match_prefix r (c # cs)) (match_prefix r (d # ds))"
    using Cons.prems t by (simp add: match_prefix_blind)
  have i: "rel_option (same_under f) (search r cs) (search r ds)"
    using Cons.IH Cons.prems(1) r by blast
  show ?case using m i unfolding t
    by (cases "match_prefix r (c # cs)"; cases "match_prefix r (d # ds)") simp_all
qed

lemma code_lower: "code (lower c) = (if is_upper c then code c + 32 else code c)"
  by (simp add: lower_def is_upper_def code_def)

lemma lower_idem: "lower (lower c) = lower c"
proof (cases "is_upper c")
  case True
  then have "\<not> is_upper (lower c)" by (simp add: code_lower is_upper_def)
  then show ?thesis by (simp add: lower_def)
next
  case False
  then show ?thesis by (simp add: lower_def)
qed

lemma lower_other: "\<not> is_upper c \<Longrightarrow> lower c = c"
  by (simp add: lower_def)


lemma lower_ascii_other: "\<not> (65 \<le> c \<and> c \<le> 90) \<Longrightarrow> lower_ascii c = c"
  by (simp add: lower_ascii_def)

lemma lower_ascii_upper: "65 \<le> c \<and> c \<le> 90 \<Longrightarrow> lower_ascii c = c + 32"
  by (simp add: lower_ascii_def)

lemma ci_u_lower: "ci_u p (lower_ascii c) = ci_u p c"
proof (cases "65 \<le> c \<and> c \<le> 90")
  case True
  then show ?thesis by (simp add: ci_u_def lower_ascii_def)
next
  case False
  then show ?thesis by (simp add: lower_ascii_other)
qed

lemma is_word_u_lower: "is_word_u uw (lower_ascii c) = is_word_u uw c"
proof (cases "65 \<le> c \<and> c \<le> 90")
  case True
  then show ?thesis by (simp add: is_word_u_def lower_ascii_upper)
next
  case False
  then show ?thesis by (simp add: lower_ascii_other)
qed

lemma word_or_dquote_u_lower: "word_or_dquote_u uw (lower_ascii c) = word_or_dquote_u uw c"
proof (cases "65 \<le> c \<and> c \<le> 90")
  case True
  then show ?thesis by (simp add: word_or_dquote_u_def is_word_u_def lower_ascii_upper)
next
  case False
  then show ?thesis by (simp add: lower_ascii_other)
qed

lemma is_space_u_lower: "is_space_u (lower_ascii c) = is_space_u c"
proof (cases "65 \<le> c \<and> c \<le> 90")
  case True
  then show ?thesis by (simp add: is_space_u_def lower_ascii_upper)
next
  case False
  then show ?thesis by (simp add: lower_ascii_other)
qed

lemma is_any_u_lower: "is_any_u (lower_ascii c) = is_any_u c"
proof (cases "65 \<le> c \<and> c \<le> 90")
  case True
  then show ?thesis by (simp add: is_any_u_def lower_ascii_upper)
next
  case False
  then show ?thesis by (simp add: lower_ascii_other)
qed

lemma is_dash_u_lower: "is_dash_u (lower_ascii c) = is_dash_u c"
proof (cases "65 \<le> c \<and> c \<le> 90")
  case True
  then show ?thesis by (simp add: is_dash_u_def lower_ascii_upper)
next
  case False
  then show ?thesis by (simp add: lower_ascii_other)
qed

lemma is_sep_u_lower: "is_sep_u (lower_ascii c) = is_sep_u c"
proof (cases "65 \<le> c \<and> c \<le> 90")
  case True
  then show ?thesis by (simp add: is_sep_u_def lower_ascii_upper)
next
  case False
  then show ?thesis by (simp add: lower_ascii_other)
qed

lemma is_quote_u_lower: "is_quote_u (lower_ascii c) = is_quote_u c"
proof (cases "65 \<le> c \<and> c \<le> 90")
  case True
  then show ?thesis by (simp add: is_quote_u_def lower_ascii_upper)
next
  case False
  then show ?thesis by (simp add: lower_ascii_other)
qed

lemma blind_word_ci_u: "blind_to lower_ascii (word_ci_u p)"
  by (induction p) (simp_all add: ci_u_lower)

lemma blind_assigned_quoted_u: "blind_to lower_ascii assigned_quoted_u"
  by (simp add: assigned_quoted_u_def is_space_u_lower is_sep_u_lower is_quote_u_lower
      is_any_u_lower)

lemma blind_sensitive_u: "blind_to lower_ascii (sensitive_data_regex_u uw)"
  by (simp only: sensitive_data_regex_u_def password_group_u_def blind_to.simps
      blind_word_ci_u blind_assigned_quoted_u word_or_dquote_u_lower) simp

lemma blind_api_u: "blind_to lower_ascii api_key_regex_u"
  by (simp only: api_key_regex_u_def Opt_def blind_to.simps blind_word_ci_u
      blind_assigned_quoted_u is_dash_u_lower) simp

section \<open>The two alphabets\<close>

lemma concat_map_map: "concat (map (map f) xss) = map f (concat xss)"
  by (simp add: map_concat)

lemma bt_agrees: "agrees g r u \<Longrightarrow> bt u (map g s) = map (map g) (bt r s)"
proof (induction r s arbitrary: u rule: bt.induct)
  case (1 p)
  then show ?case by (cases u) simp_all
next
  case (2 p c cs)
  then show ?case by (cases u) simp_all
next
  case (3 s)
  then show ?case by (cases u) simp_all
next
  case (4 r1 r2 s)
  from "4.prems" obtain u1 u2 where u: "u = Seq u1 u2" "agrees g r1 u1" "agrees g r2 u2"
    by (cases u) simp_all
  have 1: "bt u1 (map g s) = map (map g) (bt r1 s)" using "4.IH"(1) u(2) by blast
  have 2: "map (\<lambda>x. bt u2 (map g x)) (bt r1 s) = map (\<lambda>x. map (map g) (bt r2 x)) (bt r1 s)"
    using "4.IH"(2) u(3) by (intro map_cong[OF refl]) blast
  show ?case unfolding u(1) by (simp add: 1 2 map_concat comp_def)
next
  case (5 r1 r2 s)
  then show ?case by (cases u) simp_all
next
  case (6 r s)
  from "6.prems" obtain v where u: "u = Star v" "agrees g r v" by (cases u) simp_all
  have 1: "bt v (map g s) = map (map g) (bt r s)" using "6.IH"(1) u(2) by blast
  have 2: "(if length x < length s then bt (Star v) (map g x) else [])
      = map (map g) (if length x < length s then bt (Star r) x else [])"
    if "x \<in> set (bt r s)" for x
    using "6.IH"(2)[OF that, of "Star v"] u(2) by simp
  have 3: "map (\<lambda>x. if length x < length s then bt (Star v) (map g x) else []) (bt r s)
      = map (\<lambda>x. map (map g) (if length x < length s then bt (Star r) x else [])) (bt r s)"
    using 2 by (intro map_cong[OF refl]) blast
  show ?case
    unfolding u(1) bt.simps(6)[of v "map g s"] bt.simps(6)[of r s] 1
    by (simp add: 3 map_concat comp_def)
next
  case (7 r s)
  from "7.prems" obtain v where u: "u = Lazy v" "agrees g r v" by (cases u) simp_all
  have 1: "bt v (map g s) = map (map g) (bt r s)" using "7.IH"(1) u(2) by blast
  have 2: "(if length x < length s then bt (Lazy v) (map g x) else [])
      = map (map g) (if length x < length s then bt (Lazy r) x else [])"
    if "x \<in> set (bt r s)" for x
    using "7.IH"(2)[OF that, of "Lazy v"] u(2) by simp
  have 3: "map (\<lambda>x. if length x < length s then bt (Lazy v) (map g x) else []) (bt r s)
      = map (\<lambda>x. map (map g) (if length x < length s then bt (Lazy r) x else [])) (bt r s)"
    using 2 by (intro map_cong[OF refl]) blast
  show ?case
    unfolding u(1) bt.simps(7)[of v "map g s"] bt.simps(7)[of r s] 1
    by (simp add: 3 map_concat comp_def)
qed

lemma match_prefix_agrees:
  assumes "agrees g r u"
  shows "match_prefix u (map g s) = map_option (map g) (match_prefix r s)"
  unfolding match_prefix_def bt_agrees[OF assms]
  by (cases "bt r s") (simp_all add: take_map)

lemma search_agrees:
  assumes "agrees g r u"
  shows "search u (map g s) = map_option (map g) (search r s)"
proof (induction s)
  case Nil
  show ?case using match_prefix_agrees[OF assms, of "[]"] by simp
next
  case (Cons c cs)
  show ?case using match_prefix_agrees[OF assms, of "c # cs"] Cons
    by (cases "match_prefix r (c # cs)") simp_all
qed

lemma code_small: "code c < 256"
  by (simp add: code_def)

lemma code_eq_iff: "code c = code d \<longleftrightarrow> c = d"
  by (simp add: code_def)

lemma lower_ascii_code: "lower_ascii (code c) = code (lower c)"
  by (simp add: lower_ascii_def code_lower is_upper_def)

lemma ci_u_code: "ci_u (code p) (code c) = ci p c"
  using code_small[of c] by (simp add: ci_u_def ci_def lower_ascii_code code_eq_iff)

lemma is_word_u_code: "is_word_u uw (code c) = is_word c"
  using code_small[of c]
  by (simp add: is_word_u_def is_word_def is_alpha_def is_upper_def is_lower_def is_digit_def)

lemma is_space_u_code: "is_space_u (code c) = is_space c"
  using code_small[of c] by (simp add: is_space_u_def is_space_def)

lemma is_any_u_code: "is_any_u (code c) = is_any c"
  by (simp add: is_any_u_def is_any_def)

lemma code_is: "c = CHR 0x22 \<longleftrightarrow> code c = 34" "c = CHR 0x27 \<longleftrightarrow> code c = 39"
  "c = CHR ''_'' \<longleftrightarrow> code c = 95" "c = CHR ''-'' \<longleftrightarrow> code c = 45"
  "c = CHR '':'' \<longleftrightarrow> code c = 58" "c = CHR ''='' \<longleftrightarrow> code c = 61"
  by (simp_all add: code_eq_iff[symmetric] code_def)

lemma word_or_dquote_u_code: "word_or_dquote_u uw (code c) = word_or_dquote c"
  by (simp add: word_or_dquote_u_def word_or_dquote_def is_word_u_code code_is)

lemma is_dash_u_code: "is_dash_u (code c) = one_of ''_-'' c"
  by (simp add: is_dash_u_def one_of_def code_is)

lemma is_sep_u_code: "is_sep_u (code c) = is_sep c"
  by (simp add: is_sep_u_def is_sep_def one_of_def code_is)

lemma is_quote_u_code: "is_quote_u (code c) = is_quote c"
  by (auto simp: is_quote_u_def is_quote_def code_is)

lemma agrees_word_ci: "agrees code (word_ci p) (word_ci_u (map code p))"
  by (induction p) (simp_all add: ci_u_code)

lemma agrees_assigned_quoted: "agrees code assigned_quoted assigned_quoted_u"
  by (simp add: assigned_quoted_def assigned_quoted_u_def is_space_u_code is_sep_u_code
      is_quote_u_code is_any_u_code)

lemma agrees_sensitive: "agrees code sensitive_data_regex (sensitive_data_regex_u uw)"
  unfolding sensitive_data_regex_def sensitive_data_regex_u_def password_group_def
    password_group_u_def agrees.simps
  using agrees_assigned_quoted by (simp add: word_or_dquote_u_code ci_u_code)

lemma agrees_api: "agrees code api_key_regex api_key_regex_u"
  unfolding api_key_regex_def api_key_regex_u_def Opt_def agrees.simps
  using agrees_assigned_quoted by (simp add: is_dash_u_code ci_u_code)

lemma wide_matchers_agree:
  "matchPassword_u uw (map code line) = map_option (map code) (matchPassword line)"
  "matchApiKey_u (map code line) = map_option (map code) (matchApiKey line)"
  unfolding matchPassword_u_def matchPassword_def matchApiKey_u_def matchApiKey_def
  by (rule search_agrees[OF agrees_sensitive], rule search_agrees[OF agrees_api])

section \<open>The API key pattern\<close>
















section \<open>Claims\<close>

text \<open>
  C1. A line that holds a quoted assignment (optional white space, a colon or an equals sign,
  optional white space, a quote, a value on one line, a quote) raises a password alert
  whatever stands before it: the keyword group may repeat zero times, so no password-related
  word is needed anywhere on the line.
\<close>

theorem C1_bare_assignment_matches:
  assumes "list_all is_space w1" "is_sep sep" "list_all is_space w2" "is_quote q1"
    "list_all is_any v" "is_quote q2"
  shows "matchPassword (key @ w1 @ [sep] @ w2 @ [q1] @ v @ [q2] @ rest) \<noteq> None"
proof -
  let ?u = "w1 @ [sep] @ w2 @ [q1] @ v @ [q2]"
  have "matches (Star password_group) []" by (rule m_Star0)
  moreover have "matches assigned_quoted ?u" using assms by (rule matches_assigned_quoted)
  ultimately have "matches sensitive_data_regex ([] @ ?u)"
    unfolding sensitive_data_regex_def by (rule m_Seq)
  then have "matches sensitive_data_regex ?u" by simp
  then have "search sensitive_data_regex (key @ ?u @ rest) \<noteq> None" by (rule search_matches)
  then show ?thesis by (simp add: matchPassword_def)
qed

theorem C1_bare_assignment_matches_witness: \<open>matchPassword ''x = "y"'' \<noteq> None\<close>
  using C1_bare_assignment_matches
    [of "'' ''" "CHR ''=''" "'' ''" "CHR 0x22" "''y''" "CHR 0x22" "''x''" "[]"]
  by (simp add: is_space_def is_sep_def is_quote_def is_any_def one_of_def code_def)




text \<open>
  C3. When a line contains an email-like token, the email matcher returns a piece of the line
  that is an email-like token and the first one from the left: every email-like token of the
  line starts further to the right, or starts at the same place and is no longer.
\<close>

theorem C3_first_email_token:
  assumes "email_token t"
  shows "\<exists>a m b. pre @ t @ post = a @ m @ b \<and> matchEmail (pre @ t @ post) = Some m
     \<and> email_token m
     \<and> (\<forall>a' t' b'. pre @ t @ post = a' @ t' @ b' \<and> email_token t' \<longrightarrow>
           length a < length a' \<or> (length a = length a' \<and> length t' \<le> length m))"
proof -
  from assms have "matches email_regex t" by (simp add: matches_email)
  then have "search email_regex (pre @ t @ post) \<noteq> None" by (rule search_matches)
  then obtain m where m: "search email_regex (pre @ t @ post) = Some m" by auto
  from search_leftmost[OF this] obtain a b where
    ab: "pre @ t @ post = a @ m @ b" "matches email_regex m" "yields email_regex (m @ b) b"
    and lm: "\<forall>a' u b'. pre @ t @ post = a' @ u @ b' \<and> matches email_regex u \<longrightarrow> length a \<le> length a'"
    by blast
  have "length a < length a' \<or> (length a = length a' \<and> length t' \<le> length m)"
    if "pre @ t @ post = a' @ t' @ b'" "email_token t'" for a' t' b'
  proof (cases "length a = length a'")
    case True
    from ab(1) that(1) have "a @ (m @ b) = a' @ (t' @ b')" by simp
    with True have "m @ b = t' @ b'" by simp
    from email_longest[OF ab(3) this that(2)] True show ?thesis by simp
  next
    case False
    from that(2) have "matches email_regex t'" by (simp only: matches_email)
    with lm that(1) have "length a \<le> length a'" by blast
    with False show ?thesis by simp
  qed
  then have "pre @ t @ post = a @ m @ b \<and> matchEmail (pre @ t @ post) = Some m \<and> email_token m
     \<and> (\<forall>a' t' b'. pre @ t @ post = a' @ t' @ b' \<and> email_token t' \<longrightarrow>
           length a < length a' \<or> (length a = length a' \<and> length t' \<le> length m))"
    using ab(1,2) m unfolding matches_email matchEmail_def by simp
  then show ?thesis by (intro exI[of _ a] exI[of _ m] exI[of _ b])
qed

theorem C3_first_email_token_witness:
  "\<exists>m. matchEmail (''mail '' @ ''a@b.co'' @ '' now'') = Some m \<and> email_token m"
proof -
  have "email_token ''a@b.co''" unfolding email_token_def
    by (intro exI[of _ "''a''"] exI[of _ "''b''"] exI[of _ "''co''"])
      (simp add: local_char_def domain_char_def is_alpha_def is_upper_def is_lower_def code_def)
  from C3_first_email_token [OF this, of "''mail ''" "'' now''"] show ?thesis by blast
qed

text \<open>
  C4. For the line \<^verbatim>\<open>db_password = "x"\<close> the password matcher returns a match, but the match
  starts at the \<^verbatim>\<open>p\<close> of \<^verbatim>\<open>password\<close>: the prefix \<^verbatim>\<open>db_\<close> is not part of it. The first branch
  of the group needs a word character or a double quote after \<^verbatim>\<open>password\<close>, where the line
  has a space, so only the second branch, the bare keyword, matches.
\<close>

theorem C4_db_password_span:
  \<open>matchPassword ''db_password = "x"'' = Some ''password = "x"''\<close>
  by code_simp

text \<open>
  C5. For the line \<^verbatim>\<open>password = "Sup3rSecret!"\<close> the password matcher returns the whole line:
  keyword, separator and quoted value.
\<close>

theorem C5_password_full_span:
  \<open>matchPassword ''password = "Sup3rSecret!"'' = Some ''password = "Sup3rSecret!"''\<close>
  by code_simp



text \<open>
  C7, as the code has it. On lines of any code point the password matcher and the API key
  matcher do not depend on the case of the ASCII letters of a token: when one token of the
  line is replaced by a token that differs from it only in the case of its letters A to Z,
  the rest of the line fixed, each matcher finds something on both lines or on neither, and
  what it finds is the same text up to the case of these letters.
\<close>

theorem C7_keyword_case:
  assumes "map lower_ascii k1 = map lower_ascii k2"
  shows "(matchPassword_u uw (a @ k1 @ b) = None) = (matchPassword_u uw (a @ k2 @ b) = None)
       \<and> (matchApiKey_u (a @ k1 @ b) = None) = (matchApiKey_u (a @ k2 @ b) = None)
       \<and> map_option (map lower_ascii) (matchPassword_u uw (a @ k1 @ b))
           = map_option (map lower_ascii) (matchPassword_u uw (a @ k2 @ b))
       \<and> map_option (map lower_ascii) (matchApiKey_u (a @ k1 @ b))
           = map_option (map lower_ascii) (matchApiKey_u (a @ k2 @ b))"
proof -
  have s: "same_under lower_ascii (a @ k1 @ b) (a @ k2 @ b)"
    using assms by (simp add: same_under_def)
  have p: "rel_option (same_under lower_ascii)
      (matchPassword_u uw (a @ k1 @ b)) (matchPassword_u uw (a @ k2 @ b))"
    unfolding matchPassword_u_def using blind_sensitive_u s by (rule search_blind)
  have k: "rel_option (same_under lower_ascii)
      (matchApiKey_u (a @ k1 @ b)) (matchApiKey_u (a @ k2 @ b))"
    unfolding matchApiKey_u_def using blind_api_u s by (rule search_blind)
  have r: "rel_option (same_under lower_ascii) x y \<Longrightarrow>
      (x = None) = (y = None) \<and> map_option (map lower_ascii) x = map_option (map lower_ascii) y"
    for x y :: "nat list option"
    by (cases x; cases y) (simp_all add: same_under_def)
  from r[OF p] r[OF k] show ?thesis by simp
qed

theorem C7_keyword_case_witness:
  "(matchApiKey_u (map code ''API_KEY'' @ map code '': 'x' '') = None)
     = (matchApiKey_u (map code ''Api_Key'' @ map code '': 'x' '') = None)
   \<and> (matchPassword_u (\<lambda>c. False) (map code ''API_KEY'' @ map code '': 'x' '') = None)
     = (matchPassword_u (\<lambda>c. False) (map code ''Api_Key'' @ map code '': 'x' '') = None)"
proof -
  have "map lower_ascii (map code ''API_KEY'') = map lower_ascii (map code ''Api_Key'')"
    by code_simp
  from C7_keyword_case [OF this, of "\<lambda>c. False" "[]" "map code '': 'x' ''"] show ?thesis by simp
qed

text \<open>
  The claim C7 as stated fails beyond ASCII. The keyword written with the dotted capital I
  (code point 304) is recognised, since the \<^verbatim>\<open>i\<close> of the pattern matches it; its lower case, an
  \<^verbatim>\<open>i\<close> followed by the combining dot above (105, 775), is not. The two lines below are
  \<^verbatim>\<open>AP\<close>, code point 304, \<^verbatim>\<open>_KEY = "x"\<close> and what Python's \<^verbatim>\<open>str.lower\<close> makes of it.
\<close>

theorem C7_dotted_capital_i_counterexample:
  "matchApiKey_u [65, 80, 304, 95, 75, 69, 89, 32, 61, 32, 34, 120, 34]
     = Some [65, 80, 304, 95, 75, 69, 89, 32, 61, 32, 34, 120, 34]
   \<and> matchApiKey_u [97, 112, 105, 775, 95, 107, 101, 121, 32, 61, 32, 34, 120, 34] = None"
  by code_simp

text \<open>
  C8. A line without the character \<^verbatim>\<open>@\<close> raises no email alert.
\<close>

theorem C8_no_at_no_email:
  assumes "CHR ''@'' \<notin> set line"
  shows "matchEmail line = None"
proof -
  have "bt email_regex b = []" if "line = a @ b" for a b
  proof (rule ccontr)
    assume "bt email_regex b \<noteq> []"
    then obtain t where "t \<in> set (bt email_regex b)" by (cases "bt email_regex b") auto
    from bt_sound[OF this] obtain u where "b = u @ t" "matches email_regex u" by blast
    then have "CHR ''@'' \<in> set b" using email_token_at by (auto simp: matches_email)
    with that assms show False by simp
  qed
  then show ?thesis by (simp add: matchEmail_def search_None)
qed

theorem C8_no_at_no_email_witness:
  "matchEmail ''no secrets here'' = None"
  using C8_no_at_no_email [of "''no secrets here''"] by simp

text \<open>
  C9. Each matcher is a function of the line alone and is defined on every line: the
  recursions of \<open>bt\<close> and \<open>search\<close> terminate, and there is no error case. Its result is
  either no finding or a piece of the line itself.
\<close>

theorem C9_matchers_total:
  "(matchEmail line = None \<or> (\<exists>m. matchEmail line = Some m \<and> sublist m line))
   \<and> (matchPassword line = None \<or> (\<exists>m. matchPassword line = Some m \<and> sublist m line))
   \<and> (matchApiKey line = None \<or> (\<exists>m. matchApiKey line = Some m \<and> sublist m line))"
  unfolding matchEmail_def matchPassword_def matchApiKey_def
  using search_sublist [of email_regex line] search_sublist [of sensitive_data_regex line]
    search_sublist [of api_key_regex line]
  by blast

text \<open>
  C10. The opening and the closing quote need not be the same character: a value opened by a
  single quote (code point 39) and closed by a double quote (code point 34) is matched by the
  API key matcher and by the password matcher.
\<close>

theorem C10_mixed_quotes:
  \<open>matchApiKey (''api_key = '' @ [CHR 0x27] @ ''abc'' @ [CHR 0x22])
     = Some (''api_key = '' @ [CHR 0x27] @ ''abc'' @ [CHR 0x22])
   \<and> matchPassword (''password = '' @ [CHR 0x27] @ ''abc'' @ [CHR 0x22])
     = Some (''password = '' @ [CHR 0x27] @ ''abc'' @ [CHR 0x22])\<close>
  by code_simp

end
